theory Spec2Isabelle
  imports Main "HOL-Library.AList" "HOL-Library.Char_ord" "HOL-Library.List_Lexorder"
begin

section \<open>Values exchanged with clients and the store\<close>

text \<open>
  Both services are Flask applications in front of a Redis store. Request bodies, stored
  task records and response bodies are JSON values. A Python \<open>dict\<close> is an association
  list with distinct keys in insertion order; Python \<open>int\<close> is unbounded, so it is
  \<^typ>\<open>int\<close>. JSON floats do not occur in any value the services build and are left out.
\<close>

datatype json =
    JNull
  | JBool bool
  | JInt int
  | JStr string
  | JArr "json list"
  | JObj "(string \<times> json) list"

type_synonym dict = "(string \<times> json) list"

text \<open>Python truth value of a decoded JSON value, as \<open>if x:\<close> and \<open>not x\<close> read it.\<close>

fun truthy :: "json \<Rightarrow> bool" where
  "truthy JNull = False"
| "truthy (JBool b) = b"
| "truthy (JInt n) = (n \<noteq> 0)"
| "truthy (JStr s) = (s \<noteq> [])"
| "truthy (JArr xs) = (xs \<noteq> [])"
| "truthy (JObj kvs) = (kvs \<noteq> [])"

text \<open>\<open>d.get(k, dflt)\<close> and \<open>d[k] = v\<close> on a dict.\<close>

definition dict_get :: "dict \<Rightarrow> string \<Rightarrow> json \<Rightarrow> json" where
  "dict_get d k dflt = (case map_of d k of Some v \<Rightarrow> v | None \<Rightarrow> dflt)"

definition dict_set :: "dict \<Rightarrow> string \<Rightarrow> json \<Rightarrow> dict" where
  "dict_set d k v = AList.update k v d"

text \<open>Python's \<open>str\<close> on an integer: decimal digits, a minus sign when negative.\<close>

definition digit_char :: "nat \<Rightarrow> char" where
  "digit_char d = char_of (48 + d)"

fun str_nat :: "nat \<Rightarrow> string" where
  "str_nat n = (if n < 10 then [digit_char n] else str_nat (n div 10) @ [digit_char (n mod 10)])"

declare str_nat.simps [simp del]

definition str_int :: "int \<Rightarrow> string" where
  "str_int i = (if i < 0 then CHR ''-'' # str_nat (nat (- i)) else str_nat (nat i))"

text \<open>
  What a handler gives back: a rendered page (the template's three arguments), a redirect,
  or a JSON body with its status code. An exception that leaves a handler is the \<open>Inl\<close>
  branch of a sum.
\<close>

datatype response =
    Html "dict list" nat nat
  | Redirect string
  | Json nat json

datatype exn =
    ConnectionError string
  | RedisError string
  | AttributeError string

text \<open>
  Outcome of one call to the store as the environment decides it: the call is executed
  (\<open>Up\<close>), or the client raises and the store is left as it was. \<open>ConnectionError m\<close>
  stands for \<open>redis.ConnectionError\<close> and its subclasses with \<open>str(e) = m\<close>,
  \<open>RedisError\<close> for every other exception of the client.
\<close>

datatype link = Up | Down exn

definition ping :: "link \<Rightarrow> exn + unit" where
  "ping l = (case l of Up \<Rightarrow> Inr () | Down e \<Rightarrow> Inl e)"

section \<open>Task Service (monolithic/app.py)\<close>

text \<open>
  The part of the store the Task Service uses: the integer under \<open>task_counter\<close> (Redis
  reads a missing key as 0 when incrementing), the set \<open>task_ids\<close>, and the string keys
  \<open>task:<id>\<close>. A key holds the text \<open>json.dumps\<close> produced and \<open>json.loads\<close> reads back;
  the model keeps the decoded dict. That text is never empty, so \<open>if task_data:\<close> tests
  that the key exists. Apart from the health check, the handlers do not catch store errors,
  and their store calls are modelled as executed.
\<close>

record store =
  task_counter :: int
  task_ids :: "string set"
  records :: "string \<rightharpoonup> dict"

definition empty_store :: store where
  "empty_store = \<lparr>task_counter = 0, task_ids = {}, records = Map.empty\<rparr>"

definition task_key :: "string \<Rightarrow> string" where
  "task_key task_id = ''task:'' @ task_id"

definition redis_incr :: "store \<Rightarrow> int \<times> store" where
  "redis_incr s = (task_counter s + 1, s\<lparr>task_counter := task_counter s + 1\<rparr>)"

definition redis_get :: "string \<Rightarrow> store \<Rightarrow> dict option" where
  "redis_get k s = records s k"

definition redis_set :: "string \<Rightarrow> dict \<Rightarrow> store \<Rightarrow> store" where
  "redis_set k v s = s\<lparr>records := (records s)(k \<mapsto> v)\<rparr>"

definition redis_delete :: "string \<Rightarrow> store \<Rightarrow> store" where
  "redis_delete k s = s\<lparr>records := (records s)(k := None)\<rparr>"

definition sadd :: "string \<Rightarrow> store \<Rightarrow> store" where
  "sadd m s = s\<lparr>task_ids := insert m (task_ids s)\<rparr>"

definition srem :: "string \<Rightarrow> store \<Rightarrow> store" where
  "srem m s = s\<lparr>task_ids := task_ids s - {m}\<rparr>"

text \<open>
  \<open>smembers\<close> returns a Python set, and the loop of \<open>get_tasks\<close> walks it in an order the
  program does not control. The order is an argument: a list \<open>ms\<close> is a possible walk
  of the identifier set when it holds each member once.
\<close>

definition smembers :: "store \<Rightarrow> string list \<Rightarrow> bool" where
  "smembers s ms \<longleftrightarrow> set ms = task_ids s \<and> distinct ms"

fun collect_tasks :: "string list \<Rightarrow> store \<Rightarrow> dict list" where
  "collect_tasks [] s = []"
| "collect_tasks (task_id # rest) s =
     (case redis_get (task_key task_id) s of
        Some task \<Rightarrow> dict_set task ''id'' (JStr task_id) # collect_tasks rest s
      | None \<Rightarrow> collect_tasks rest s)"

text \<open>
  The sort key \<open>x.get('id', 0)\<close>. Every collected task has just been given its identifier,
  a string, so the default is never taken; strings compare by code point, lexicographically.
\<close>

definition sort_id :: "dict \<Rightarrow> string" where
  "sort_id x = (case dict_get x ''id'' (JInt 0) of JStr i \<Rightarrow> i | _ \<Rightarrow> [])"

definition get_tasks :: "string list \<Rightarrow> store \<Rightarrow> dict list" where
  "get_tasks ms s = sort_key sort_id (collect_tasks ms s)"

definition get_next_id :: "store \<Rightarrow> int \<times> store" where
  "get_next_id s = redis_incr s"

definition index :: "string list \<Rightarrow> store \<Rightarrow> response" where
  "index ms s =
     (let tasks = get_tasks ms s;
          total_tasks = length tasks;
          completed_tasks = length (filter (\<lambda>t. truthy (dict_get t ''completed'' (JBool False))) tasks)
      in Html tasks total_tasks completed_tasks)"

definition create_task :: "string option \<Rightarrow> store \<Rightarrow> response \<times> store" where
  "create_task title s =
     (case title of
        None \<Rightarrow> (Redirect ''/'', s)
      | Some t \<Rightarrow>
          if t \<noteq> [] then
            (let (n, s1) = get_next_id s;
                 task_id = str_int n;
                 task = [(''title'', JStr t), (''completed'', JBool False)];
                 s2 = redis_set (task_key task_id) task s1;
                 s3 = sadd task_id s2
             in (Redirect ''/'', s3))
          else (Redirect ''/'', s))"

definition toggle_task :: "string \<Rightarrow> store \<Rightarrow> response \<times> store" where
  "toggle_task task_id s =
     (case redis_get (task_key task_id) s of
        Some task \<Rightarrow>
          (let task' = dict_set task ''completed''
                         (JBool (\<not> truthy (dict_get task ''completed'' (JBool False))))
           in (Redirect ''/'', redis_set (task_key task_id) task' s))
      | None \<Rightarrow> (Redirect ''/'', s))"

definition delete_task :: "string \<Rightarrow> store \<Rightarrow> response \<times> store" where
  "delete_task task_id s = (Redirect ''/'', srem task_id (redis_delete (task_key task_id) s))"

definition api_get_tasks :: "string list \<Rightarrow> store \<Rightarrow> response" where
  "api_get_tasks ms s = Json 200 (JArr (map JObj (get_tasks ms s)))"

text \<open>
  \<open>data\<close> is what \<open>request.get_json()\<close> returned (\<open>JNull\<close> for \<open>None\<close>, the JSON text
  \<open>null\<close>). When there is no body, or the body is not JSON, \<open>get_json\<close> aborts the request
  inside the framework and the handler's own lines are not reached; such requests are not
  inputs of \<open>api_create_task\<close> here. A value that is true in Python and not an object has no
  \<open>get\<close>: the attribute error leaves the handler before any store call.
\<close>

definition title_required :: response where
  "title_required = Json 400 (JObj [(''error'', JStr ''Title required'')])"

definition api_create_task :: "json \<Rightarrow> store \<Rightarrow> (exn + response) \<times> store" where
  "api_create_task data s =
     (if truthy data then
        (case data of
           JObj d \<Rightarrow>
             if truthy (dict_get d ''title'' JNull) then
               (let (n, s1) = get_next_id s;
                    task_id = str_int n;
                    task = [(''title'', dict_get d ''title'' JNull), (''completed'', JBool False)];
                    s2 = redis_set (task_key task_id) task s1;
                    s3 = sadd task_id s2;
                    task' = dict_set task ''id'' (JStr task_id)
                in (Inr (Json 201 (JObj task')), s3))
             else (Inr title_required, s)
         | _ \<Rightarrow> (Inl (AttributeError ''get''), s))
      else (Inr title_required, s))"

definition health_check :: "link \<Rightarrow> exn + response" where
  "health_check l =
     (let redis_status = (case ping l of Inr _ \<Rightarrow> ''healthy'' | Inl _ \<Rightarrow> ''unhealthy'')
      in Inr (Json 200 (JObj [(''status'', JStr ''running''),
                              (''redis'', JStr redis_status),
                              (''container_type'', JStr ''monolithic'')])))"

section \<open>Diagnostic Service (python-app/app.py)\<close>

record diag_store =
  visit_counter :: int

definition incr_visit_counter :: "link \<Rightarrow> diag_store \<Rightarrow> (exn + int) \<times> diag_store" where
  "incr_visit_counter l s =
     (case l of
        Up \<Rightarrow> (Inr (visit_counter s + 1), s\<lparr>visit_counter := visit_counter s + 1\<rparr>)
      | Down e \<Rightarrow> (Inl e, s))"

definition home :: "string \<Rightarrow> response" where
  "home redis_host = Json 200 (JObj [(''service'', JStr ''Python Flask API''),
                                     (''status'', JStr ''running''),
                                     (''redis_host'', JStr redis_host)])"

definition health :: "link \<Rightarrow> exn + response" where
  "health l =
     (case ping l of
        Inr _ \<Rightarrow> Inr (Json 200 (JObj [(''status'', JStr ''healthy''), (''redis'', JStr ''connected'')]))
      | Inl (ConnectionError m) \<Rightarrow>
          Inr (Json 503 (JObj [(''status'', JStr ''unhealthy''), (''redis'', JStr ''disconnected'')]))
      | Inl e \<Rightarrow> Inl e)"

definition counter :: "link \<Rightarrow> diag_store \<Rightarrow> (exn + response) \<times> diag_store" where
  "counter l s =
     (case incr_visit_counter l s of
        (Inr count, s') \<Rightarrow> (Inr (Json 200 (JObj [(''counter'', JInt count)])), s')
      | (Inl (ConnectionError m), s') \<Rightarrow> (Inr (Json 503 (JObj [(''error'', JStr m)])), s')
      | (Inl e, s') \<Rightarrow> (Inl e, s'))"

section \<open>Sequences of requests\<close>

text \<open>
  The four routes that write to the store, as requests; \<open>step\<close> is the store after the
  handler has run, \<open>run\<close> handles a sequence of requests one after the other. The three
  reading routes (\<open>index\<close>, \<open>api_get_tasks\<close>, \<open>health_check\<close>) make no store call that
  writes and return no store.
\<close>

datatype op =
    PostTasks "string option"
  | PostToggle string
  | PostDelete string
  | PostApiTasks json

fun step :: "op \<Rightarrow> store \<Rightarrow> store" where
  "step (PostTasks title) s = snd (create_task title s)"
| "step (PostToggle task_id) s = snd (toggle_task task_id s)"
| "step (PostDelete task_id) s = snd (delete_task task_id s)"
| "step (PostApiTasks data) s = snd (api_create_task data s)"

fun run :: "op list \<Rightarrow> store \<Rightarrow> store" where
  "run [] s = s"
| "run (x # xs) s = run xs (step x s)"

text \<open>
  The status code the client sees: \<open>redirect\<close> answers 302, a rendered page 200.
\<close>

fun status_of :: "response \<Rightarrow> nat" where
  "status_of (Html tasks n m) = 200"
| "status_of (Redirect target) = 302"
| "status_of (Json code body) = code"

text \<open>
  The title a create request carries past the handler's test (\<open>if title:\<close>, respectively
  \<open>if data and data.get('title'):\<close>), if it does; such a request calls \<open>get_next_id\<close>
  exactly once, and \<open>issued_ids\<close> lists what these calls return along a sequence.
\<close>

fun new_title :: "op \<Rightarrow> json option" where
  "new_title (PostTasks title) =
     (case title of Some t \<Rightarrow> if t \<noteq> [] then Some (JStr t) else None | None \<Rightarrow> None)"
| "new_title (PostApiTasks data) =
     (case data of
        JObj d \<Rightarrow> if truthy data \<and> truthy (dict_get d ''title'' JNull)
                  then Some (dict_get d ''title'' JNull) else None
      | _ \<Rightarrow> None)"
| "new_title (PostToggle task_id) = None"
| "new_title (PostDelete task_id) = None"

definition creates :: "op \<Rightarrow> bool" where
  "creates x \<longleftrightarrow> new_title x \<noteq> None"

fun issued_ids :: "op list \<Rightarrow> store \<Rightarrow> int list" where
  "issued_ids [] s = []"
| "issued_ids (x # xs) s =
     (if creates x then fst (get_next_id s) # issued_ids xs (step x s)
      else issued_ids xs (step x s))"

text \<open>The identifier-set invariant of the data model.\<close>

definition store_inv :: "store \<Rightarrow> bool" where
  "store_inv s \<longleftrightarrow> (\<forall>i \<in> task_ids s. redis_get (task_key i) s \<noteq> None)"

text \<open>The completion state of a record, as \<open>index\<close> and \<open>toggle_task\<close> read it.\<close>

definition is_completed :: "dict \<Rightarrow> bool" where
  "is_completed task = truthy (dict_get task ''completed'' (JBool False))"

text \<open>
  The task table in the spec's words, to compare the handlers with: a creation with a
  non-empty title takes the next identifier and enters the title with completed = false;
  a toggle flips the flag of an entry that is there and does nothing otherwise; a deletion
  removes the entry. The state is the number of identifiers issued and the table.
\<close>

type_synonym spec_table = "string \<rightharpoonup> json \<times> bool"

fun spec_step :: "op \<Rightarrow> int \<times> spec_table \<Rightarrow> int \<times> spec_table" where
  "spec_step (PostToggle i) (n, tbl) =
     (case tbl i of Some (t, c) \<Rightarrow> (n, tbl(i \<mapsto> (t, \<not> c))) | None \<Rightarrow> (n, tbl))"
| "spec_step (PostDelete i) (n, tbl) = (n, tbl(i := None))"
| "spec_step x (n, tbl) =
     (case new_title x of
        Some t \<Rightarrow> (n + 1, tbl(str_int (n + 1) \<mapsto> (t, False)))
      | None \<Rightarrow> (n, tbl))"

fun spec_run :: "op list \<Rightarrow> int \<times> spec_table \<Rightarrow> int \<times> spec_table" where
  "spec_run [] st = st"
| "spec_run (x # xs) st = spec_run xs (spec_step x st)"

definition spec_tasks :: "op list \<Rightarrow> spec_table" where
  "spec_tasks xs = snd (spec_run xs (0, Map.empty))"

text \<open>
  A sequence whose deletions are of distinct, previously created identifiers: each
  \<open>PostDelete i\<close> names one of the \<open>n\<close> identifiers issued so far and none of those
  deleted before it (\<open>gone\<close>).
\<close>

fun deletes_ok :: "op list \<Rightarrow> int \<Rightarrow> string list \<Rightarrow> bool" where
  "deletes_ok [] n gone = True"
| "deletes_ok (PostDelete i # xs) n gone =
     (i \<in> set (map str_int [1..n]) \<and> i \<notin> set gone \<and> deletes_ok xs n (i # gone))"
| "deletes_ok (x # xs) n gone = deletes_ok xs (if creates x then n + 1 else n) gone"

fun is_delete :: "op \<Rightarrow> bool" where
  "is_delete (PostDelete i) = True"
| "is_delete x = False"

text \<open>
  The record the handlers write for a table entry, and what it means for a store to hold
  the table: same count of issued identifiers, the identifier set is the table's domain,
  each key \<open>task:<id>\<close> holds the entry's record, and every identifier in the table is the
  decimal string of a number not above the counter.
\<close>

definition task_record :: "json \<times> bool \<Rightarrow> dict" where
  "task_record e = [(''title'', fst e), (''completed'', JBool (snd e))]"

definition agrees :: "store \<Rightarrow> int \<times> spec_table \<Rightarrow> bool" where
  "agrees s st \<longleftrightarrow>
     task_counter s = fst st
   \<and> task_ids s = dom (snd st)
   \<and> (\<forall>i. redis_get (task_key i) s = map_option task_record (snd st i))
   \<and> (\<forall>i \<in> dom (snd st). \<exists>k. k \<le> fst st \<and> i = str_int k)"

section \<open>Identifiers as decimal strings\<close>

text \<open>Two integers never have the same decimal string.\<close>

lemma of_char_digit: "d < 10 \<Longrightarrow> of_char (digit_char d) = 48 + d"
  by (simp add: digit_char_def)

lemma digit_char_inj: "a < 10 \<Longrightarrow> b < 10 \<Longrightarrow> digit_char a = digit_char b \<Longrightarrow> a = b"
proof -
  assume a: "a < 10" and b: "b < 10" and e: "digit_char a = digit_char b"
  from e have "(of_char (digit_char a) :: nat) = of_char (digit_char b)" by simp
  with a b show "a = b" by (simp add: of_char_digit)
qed

lemma digit_char_not_minus: "d < 10 \<Longrightarrow> digit_char d \<noteq> CHR ''-''"
proof
  assume d: "d < 10" and e: "digit_char d = CHR ''-''"
  from e have "(of_char (digit_char d) :: nat) = of_char (CHR ''-'')" by simp
  with d show False by (simp add: of_char_digit)
qed

lemma str_nat_nonempty: "str_nat n \<noteq> []"
  by (subst str_nat.simps) simp

lemma str_nat_no_minus: "CHR ''-'' \<notin> set (str_nat n)"
proof (induction n rule: str_nat.induct)
  case (1 n)
  show ?case
  proof (cases "n < 10")
    case True
    then show ?thesis using digit_char_not_minus [of n]
      by (subst str_nat.simps) auto
  next
    case False
    have "n mod 10 < 10" by simp
    then have "digit_char (n mod 10) \<noteq> CHR ''-''" by (rule digit_char_not_minus)
    with False 1 show ?thesis
      by (subst str_nat.simps) auto
  qed
qed

lemma str_nat_inj: "str_nat n = str_nat m \<Longrightarrow> n = m"
proof (induction n arbitrary: m rule: str_nat.induct)
  case (1 n)
  show ?case
  proof (cases "n < 10")
    case n: True
    show ?thesis
    proof (cases "m < 10")
      case True
      with n 1(2) show ?thesis
        by (simp add: str_nat.simps [of n] str_nat.simps [of m] digit_char_inj)
    next
      case False
      with n 1(2) str_nat_nonempty [of "m div 10"] show ?thesis
        by (simp add: str_nat.simps [of n] str_nat.simps [of m])
    qed
  next
    case n: False
    show ?thesis
    proof (cases "m < 10")
      case True
      with n 1(2) str_nat_nonempty [of "n div 10"] show ?thesis
        by (simp add: str_nat.simps [of n] str_nat.simps [of m])
    next
      case False
      with n 1(2) have e: "str_nat (n div 10) = str_nat (m div 10)"
        and d: "digit_char (n mod 10) = digit_char (m mod 10)"
        by (simp_all add: str_nat.simps [of n] str_nat.simps [of m])
      from 1(1) [OF n e] have q: "n div 10 = m div 10" .
      have "n mod 10 < 10" "m mod 10 < 10" by simp_all
      with d have r: "n mod 10 = m mod 10" using digit_char_inj by blast
      have "n = 10 * (n div 10) + n mod 10" by simp
      also have "\<dots> = 10 * (m div 10) + m mod 10" using q r by simp
      also have "\<dots> = m" by simp
      finally show ?thesis .
    qed
  qed
qed

lemma str_int_inj: "str_int a = str_int b \<Longrightarrow> a = b"
proof -
  assume e: "str_int a = str_int b"
  show "a = b"
  proof (cases "a < 0")
    case a: True
    show ?thesis
    proof (cases "b < 0")
      case True
      with a e have "str_nat (nat (- a)) = str_nat (nat (- b))" by (simp add: str_int_def)
      then have "nat (- a) = nat (- b)" by (rule str_nat_inj)
      with a True show ?thesis by simp
    next
      case False
      with a e have "CHR ''-'' # str_nat (nat (- a)) = str_nat (nat b)"
        by (simp add: str_int_def)
      then have "CHR ''-'' \<in> set (str_nat (nat b))"
        by (metis list.set_intros(1))
      then show ?thesis using str_nat_no_minus by blast
    qed
  next
    case a: False
    show ?thesis
    proof (cases "b < 0")
      case True
      with a e have "str_nat (nat a) = CHR ''-'' # str_nat (nat (- b))"
        by (simp add: str_int_def)
      then have "CHR ''-'' \<in> set (str_nat (nat a))"
        by (metis list.set_intros(1))
      then show ?thesis using str_nat_no_minus by blast
    next
      case False
      with a e have "str_nat (nat a) = str_nat (nat b)" by (simp add: str_int_def)
      then have "nat a = nat b" by (rule str_nat_inj)
      with a False show ?thesis by simp
    qed
  qed
qed

lemma str_int_eq_iff [simp]: "str_int a = str_int b \<longleftrightarrow> a = b"
  using str_int_inj by blast

lemma task_key_eq_iff [simp]: "task_key a = task_key b \<longleftrightarrow> a = b"
  by (simp add: task_key_def)

lemma str_int_1: "str_int 1 = ''1''" by code_simp
lemma str_int_2: "str_int 2 = ''2''" by code_simp

section \<open>What each handler does to the store\<close>

lemma create_task_creates:
  "t \<noteq> [] \<Longrightarrow> create_task (Some t) s =
     (Redirect ''/'',
      s\<lparr>task_counter := task_counter s + 1,
        task_ids := insert (str_int (task_counter s + 1)) (task_ids s),
        records := (records s)(task_key (str_int (task_counter s + 1)) \<mapsto>
                      [(''title'', JStr t), (''completed'', JBool False)])\<rparr>)"
  by (simp add: create_task_def get_next_id_def redis_incr_def redis_set_def sadd_def Let_def)

lemma api_create_task_creates:
  "truthy (dict_get d ''title'' JNull) \<Longrightarrow> api_create_task (JObj d) s =
     (Inr (Json 201 (JObj [(''title'', dict_get d ''title'' JNull), (''completed'', JBool False),
                           (''id'', JStr (str_int (task_counter s + 1)))])),
      s\<lparr>task_counter := task_counter s + 1,
        task_ids := insert (str_int (task_counter s + 1)) (task_ids s),
        records := (records s)(task_key (str_int (task_counter s + 1)) \<mapsto>
                      [(''title'', dict_get d ''title'' JNull), (''completed'', JBool False)])\<rparr>)"
  by (cases d) (auto simp add: api_create_task_def dict_get_def get_next_id_def redis_incr_def
      redis_set_def sadd_def dict_set_def Let_def)

lemma step_new_title:
  "new_title x = Some t \<Longrightarrow> step x s =
      s\<lparr>task_counter := task_counter s + 1,
        task_ids := insert (str_int (task_counter s + 1)) (task_ids s),
        records := (records s)(task_key (str_int (task_counter s + 1)) \<mapsto>
                      [(''title'', t), (''completed'', JBool False)])\<rparr>"
proof (cases x)
  case (PostTasks title)
  assume "new_title x = Some t"
  with PostTasks obtain u where "title = Some u" "u \<noteq> []" "t = JStr u"
    by (auto split: option.splits if_splits)
  with PostTasks show ?thesis by (simp add: create_task_creates)
next
  case (PostApiTasks data)
  assume "new_title x = Some t"
  with PostApiTasks obtain d where "data = JObj d" "truthy (dict_get d ''title'' JNull)"
    "t = dict_get d ''title'' JNull"
    by (auto split: json.splits if_splits)
  with PostApiTasks show ?thesis by (simp add: api_create_task_creates)
qed simp_all

lemma step_no_title:
  "new_title x = None \<Longrightarrow> \<not> is_delete x \<Longrightarrow> (\<forall>i. x \<noteq> PostToggle i) \<Longrightarrow> step x s = s"
proof (cases x)
  case (PostTasks title)
  assume "new_title x = None"
  with PostTasks show ?thesis
    by (auto simp add: create_task_def split: option.splits if_splits)
next
  case (PostApiTasks data)
  assume "new_title x = None"
  with PostApiTasks show ?thesis
    by (cases data) (auto simp add: api_create_task_def split: if_splits)
qed simp_all

section \<open>Health check and counter\<close>

text \<open>
  Claim C9. Whatever the ping does, succeed or raise any exception, \<open>GET /api/health\<close>
  returns HTTP 200 with \<open>{status: "running", redis: r, container_type: "monolithic"}\<close>,
  where \<open>r\<close> is \<open>"healthy"\<close> exactly when the ping succeeded and \<open>"unhealthy"\<close> otherwise;
  no exception leaves the handler.
\<close>

theorem health_check_never_fails:
  "health_check l =
     Inr (Json 200 (JObj [(''status'', JStr ''running''),
                          (''redis'', JStr (if ping l = Inr () then ''healthy'' else ''unhealthy'')),
                          (''container_type'', JStr ''monolithic'')]))"
  by (cases l) (simp_all add: health_check_def ping_def)

text \<open>
  Claim C10. When the increment is executed, \<open>GET /counter\<close> returns \<open>{counter: v}\<close> with
  \<open>v\<close> the stored value plus one and stores \<open>v\<close>; three calls in sequence on a fresh
  counter return 1, 2, 3. When the call raises a connection error with message \<open>m\<close>, the
  handler returns \<open>{error: m}\<close> with HTTP 503 and the store is as it was.
\<close>

theorem counter_increments:
  "counter Up s = (Inr (Json 200 (JObj [(''counter'', JInt (visit_counter s + 1))])),
                   s\<lparr>visit_counter := visit_counter s + 1\<rparr>)
   \<and> counter (Down (ConnectionError m)) s = (Inr (Json 503 (JObj [(''error'', JStr m)])), s)
   \<and> (let fresh = \<lparr>visit_counter = 0\<rparr>;
           (r1, s1) = counter Up fresh;
           (r2, s2) = counter Up s1;
           (r3, s3) = counter Up s2
       in [r1, r2, r3] = map (\<lambda>v. Inr (Json 200 (JObj [(''counter'', JInt v)]))) [1, 2, 3])"
  by (simp add: counter_def incr_visit_counter_def)

section \<open>Creating tasks\<close>

text \<open>
  Claim C3. A \<open>POST /api/tasks\<close> whose body is an object with a non-empty title \<open>t\<close>
  takes the next identifier \<open>n\<close> from the counter, writes the record
  \<open>{title: t, completed: false}\<close> under \<open>task:n\<close>, adds the string of \<open>n\<close> to the identifier
  set, and returns HTTP 201 with \<open>{title: t, completed: false, id: s}\<close>, \<open>s\<close> the string
  of \<open>n\<close>.
\<close>

theorem api_create_task_created:
  assumes "map_of d ''title'' = Some t" and "truthy t"
  shows "api_create_task (JObj d) s =
     (Inr (Json 201 (JObj [(''title'', t), (''completed'', JBool False),
                           (''id'', JStr (str_int (fst (get_next_id s))))])),
      sadd (str_int (fst (get_next_id s)))
        (redis_set (task_key (str_int (fst (get_next_id s))))
           [(''title'', t), (''completed'', JBool False)] (snd (get_next_id s))))"
proof -
  from assms have "dict_get d ''title'' JNull = t" by (simp add: dict_get_def)
  with assms(2) api_create_task_creates [of d s] show ?thesis
    by (simp add: get_next_id_def redis_incr_def redis_set_def sadd_def)
qed

theorem api_create_task_created_witness:
  "api_create_task (JObj [(''title'', JStr ''buy milk'')]) empty_store =
     (Inr (Json 201 (JObj [(''title'', JStr ''buy milk''), (''completed'', JBool False),
                           (''id'', JStr ''1'')])),
      \<lparr>task_counter = 1, task_ids = {''1''},
       records = [''task:1'' \<mapsto> [(''title'', JStr ''buy milk''), (''completed'', JBool False)]]\<rparr>)"
  using api_create_task_created [of "[(''title'', JStr ''buy milk'')]" "JStr ''buy milk''" empty_store]
  by (simp add: get_next_id_def redis_incr_def redis_set_def sadd_def empty_store_def str_int_1
      task_key_def)

text \<open>
  Claim C2 as stated asks for a 400 response on both routes. The form route has no such
  branch: without a title it answers with the redirect to the index, as it does after a
  creation.
\<close>

theorem form_without_title_is_redirected:
  "fst (create_task None empty_store) = Redirect ''/''
   \<and> status_of (fst (create_task None empty_store)) \<noteq> 400"
  by (simp add: create_task_def)

text \<open>
  Claim C2, amended. A create request whose title is missing or empty writes no record,
  adds no identifier and leaves the counter alone. \<open>POST /tasks\<close> then answers with the
  redirect to \<open>/\<close>. \<open>POST /api/tasks\<close> answers 400 with \<open>{error: "Title required"}\<close> when
  the value \<open>request.get_json()\<close> returned is false in Python (\<open>null\<close>, \<open>false\<close>, 0, an
  empty string, list or object), or is an object whose title is missing or false in
  Python. For every other value returned without a usable title the store is unchanged as
  well. A request that \<open>get_json\<close> itself refuses (no body, or a body that is not JSON)
  does not reach the handler's test, and nothing is said about its response.
\<close>

theorem create_without_title_writes_nothing:
  "((title = None \<or> title = Some []) \<longrightarrow> create_task title s = (Redirect ''/'', s))
   \<and> (\<not> truthy data \<longrightarrow> api_create_task data s = (Inr title_required, s))
   \<and> (\<not> truthy (dict_get d ''title'' JNull) \<longrightarrow>
         api_create_task (JObj d) s = (Inr title_required, s))
   \<and> (new_title (PostApiTasks data) = None \<longrightarrow> snd (api_create_task data s) = s)"
proof (intro conjI impI)
  assume "title = None \<or> title = Some []"
  then show "create_task title s = (Redirect ''/'', s)"
    by (auto simp add: create_task_def)
next
  assume "\<not> truthy data"
  then show "api_create_task data s = (Inr title_required, s)"
    by (simp add: api_create_task_def)
next
  assume "\<not> truthy (dict_get d ''title'' JNull)"
  then show "api_create_task (JObj d) s = (Inr title_required, s)"
    by (simp add: api_create_task_def)
next
  assume "new_title (PostApiTasks data) = None"
  then have "step (PostApiTasks data) s = s"
    by (intro step_no_title) simp_all
  then show "snd (api_create_task data s) = s" by simp
qed

theorem create_without_title_writes_nothing_witness:
  "create_task (Some []) empty_store = (Redirect ''/'', empty_store)
   \<and> api_create_task JNull empty_store = (Inr title_required, empty_store)
   \<and> api_create_task (JObj [(''title'', JStr [])]) empty_store = (Inr title_required, empty_store)
   \<and> snd (api_create_task (JArr [JInt 1]) empty_store) = empty_store"
  using create_without_title_writes_nothing
    [of "Some []" empty_store JNull "[(''title'', JStr [])]"]
    create_without_title_writes_nothing
    [of "Some []" empty_store "JArr [JInt 1]" "[(''title'', JStr [])]"]
  by (simp add: dict_get_def)

section \<open>Toggling and deleting\<close>

lemma is_completed_dict_set [simp]:
  "is_completed (dict_set task ''completed'' (JBool b)) = b"
  by (simp add: is_completed_def dict_get_def dict_set_def update_conv')

lemma map_of_dict_set_other:
  "k \<noteq> k' \<Longrightarrow> map_of (dict_set task k' v) k = map_of task k"
  by (simp add: dict_set_def update_conv')

lemma dict_set_dict_set [simp]: "dict_set (dict_set task k v) k w = dict_set task k w"
  by (simp add: dict_set_def)

lemma dict_set_same: "map_of task k = Some v \<Longrightarrow> dict_set task k v = task"
  by (simp add: dict_set_def update_triv)

lemma toggle_task_present:
  "redis_get (task_key i) s = Some task \<Longrightarrow>
     toggle_task i s =
       (Redirect ''/'',
        redis_set (task_key i) (dict_set task ''completed'' (JBool (\<not> is_completed task))) s)"
  by (simp add: toggle_task_def is_completed_def)

lemma redis_get_redis_set [simp]:
  "redis_get k (redis_set k' v s) = (if k = k' then Some v else redis_get k s)"
  by (simp add: redis_get_def redis_set_def)

lemma redis_set_redis_set [simp]: "redis_set k v (redis_set k w s) = redis_set k v s"
  by (simp add: redis_set_def)

lemma redis_set_same: "redis_get k s = Some v \<Longrightarrow> redis_set k v s = s"
  by (simp add: redis_get_def redis_set_def map_upd_triv)

text \<open>
  Claim C4. For an identifier whose record exists, one toggle rewrites the record under
  the same key with the completion state negated and every other field as it was; a second
  toggle gives back the original completion state. When the flag is stored as a boolean,
  as in every record the service writes, the store after two toggles is the store before.
\<close>

theorem toggle_task_flips:
  assumes "redis_get (task_key i) s = Some task"
  shows "\<exists>once twice.
           toggle_task i s = (Redirect ''/'', redis_set (task_key i) once s)
         \<and> is_completed once = (\<not> is_completed task)
         \<and> (\<forall>k. k \<noteq> ''completed'' \<longrightarrow> map_of once k = map_of task k)
         \<and> toggle_task i (snd (toggle_task i s)) = (Redirect ''/'', redis_set (task_key i) twice s)
         \<and> is_completed twice = is_completed task
         \<and> (\<forall>k. k \<noteq> ''completed'' \<longrightarrow> map_of twice k = map_of task k)
         \<and> (map_of task ''completed'' = Some (JBool (is_completed task)) \<longrightarrow>
              snd (toggle_task i (snd (toggle_task i s))) = s)"
proof -
  let ?once = "dict_set task ''completed'' (JBool (\<not> is_completed task))"
  let ?twice = "dict_set task ''completed'' (JBool (is_completed task))"
  have 1: "toggle_task i s = (Redirect ''/'', redis_set (task_key i) ?once s)"
    using assms by (rule toggle_task_present)
  have 2: "toggle_task i (snd (toggle_task i s)) = (Redirect ''/'', redis_set (task_key i) ?twice s)"
    by (simp add: 1 toggle_task_present)
  have 3: "map_of task ''completed'' = Some (JBool (is_completed task)) \<longrightarrow>
             snd (toggle_task i (snd (toggle_task i s))) = s"
    using assms by (simp add: 2 dict_set_same redis_set_same)
  have 4: "\<forall>k. k \<noteq> ''completed'' \<longrightarrow> map_of ?once k = map_of task k"
    by (simp add: map_of_dict_set_other)
  have 5: "\<forall>k. k \<noteq> ''completed'' \<longrightarrow> map_of ?twice k = map_of task k"
    by (simp add: map_of_dict_set_other)
  have 6: "is_completed ?once = (\<not> is_completed task)" "is_completed ?twice = is_completed task"
    by simp_all
  show ?thesis
    by (rule exI [of _ ?once], rule exI [of _ ?twice]) (use 1 2 3 4 5 6 in blast)
qed

theorem toggle_task_flips_witness:
  "redis_get (task_key ''1'') (snd (create_task (Some ''buy milk'') empty_store)) =
     Some [(''title'', JStr ''buy milk''), (''completed'', JBool False)]
   \<and> snd (toggle_task ''1'' (snd (toggle_task ''1'' (snd (create_task (Some ''buy milk'') empty_store)))))
     = snd (create_task (Some ''buy milk'') empty_store)"
proof -
  let ?s = "snd (create_task (Some ''buy milk'') empty_store)"
  let ?task = "[(''title'', JStr ''buy milk''), (''completed'', JBool False)]"
  have h: "redis_get (task_key ''1'') ?s = Some ?task"
    by (simp add: create_task_creates empty_store_def str_int_1 redis_get_def)
  have c: "map_of ?task ''completed'' = Some (JBool (is_completed ?task))"
    by (simp add: is_completed_def dict_get_def)
  from toggle_task_flips [OF h] c h show ?thesis by blast
qed

lemma collect_tasks_records:
  "records s' = records s \<Longrightarrow> collect_tasks ms s' = collect_tasks ms s"
  by (induction ms) (simp_all add: redis_get_def split: option.splits)

lemma collect_tasks_removeAll:
  "redis_get (task_key i) s = None \<Longrightarrow> collect_tasks (removeAll i ms) s = collect_tasks ms s"
  by (induction ms) (auto split: option.splits)

text \<open>
  Claim C8. For an identifier with no stored record, toggle and delete both answer with
  the redirect (no error reaches the caller). Toggle leaves the store as it is; delete
  leaves every record and the counter as they are and only takes the identifier out of
  the identifier set, so that the listing is the same before and after.
\<close>

theorem missing_record_is_no_op:
  assumes "redis_get (task_key i) s = None"
  shows "toggle_task i s = (Redirect ''/'', s)
       \<and> delete_task i s = (Redirect ''/'', s\<lparr>task_ids := task_ids s - {i}\<rparr>)
       \<and> (smembers s ms \<longrightarrow>
            smembers (snd (delete_task i s)) (removeAll i ms)
          \<and> get_tasks (removeAll i ms) (snd (delete_task i s)) = get_tasks ms s)"
proof -
  have t: "toggle_task i s = (Redirect ''/'', s)"
    using assms by (simp add: toggle_task_def)
  have "(records s)(task_key i := None) = records s"
    using assms by (simp add: redis_get_def fun_upd_idem)
  then have d: "delete_task i s = (Redirect ''/'', s\<lparr>task_ids := task_ids s - {i}\<rparr>)"
    by (simp add: delete_task_def srem_def redis_delete_def)
  have "collect_tasks (removeAll i ms) (s\<lparr>task_ids := task_ids s - {i}\<rparr>)
          = collect_tasks (removeAll i ms) s"
    by (rule collect_tasks_records) simp
  also have "\<dots> = collect_tasks ms s"
    using assms by (rule collect_tasks_removeAll)
  finally have "collect_tasks (removeAll i ms) (s\<lparr>task_ids := task_ids s - {i}\<rparr>)
          = collect_tasks ms s" .
  then have g: "get_tasks (removeAll i ms) (snd (delete_task i s)) = get_tasks ms s"
    by (simp add: d get_tasks_def)
  have m: "smembers s ms \<longrightarrow> smembers (snd (delete_task i s)) (removeAll i ms)"
    by (auto simp add: d smembers_def distinct_removeAll)
  from t d g m show ?thesis by simp
qed

theorem missing_record_is_no_op_witness:
  "redis_get (task_key ''7'') empty_store = None
   \<and> smembers empty_store []
   \<and> toggle_task ''7'' empty_store = (Redirect ''/'', empty_store)
   \<and> delete_task ''7'' empty_store = (Redirect ''/'', empty_store)"
proof -
  have h: "redis_get (task_key ''7'') empty_store = None"
    by (simp add: redis_get_def empty_store_def)
  have m: "smembers empty_store []" by (simp add: smembers_def empty_store_def)
  from missing_record_is_no_op [OF h, of "[]"] h m show ?thesis
    by (simp add: empty_store_def)
qed

section \<open>Invariants along sequences of requests\<close>

lemmas handler_defs =
  create_task_def toggle_task_def delete_task_def api_create_task_def get_next_id_def
  redis_incr_def redis_get_def redis_set_def redis_delete_def sadd_def srem_def
  dict_get_def dict_set_def task_key_def empty_store_def Let_def

lemma step_toggle:
  "step (PostToggle i) s =
     (case redis_get (task_key i) s of
        Some task \<Rightarrow>
          redis_set (task_key i) (dict_set task ''completed'' (JBool (\<not> is_completed task))) s
      | None \<Rightarrow> s)"
  by (simp add: toggle_task_def is_completed_def split: option.splits)

lemma step_delete:
  "step (PostDelete i) s =
     s\<lparr>records := (records s)(task_key i := None), task_ids := task_ids s - {i}\<rparr>"
  by (simp add: delete_task_def srem_def redis_delete_def)

declare step.simps [simp del]

lemma step_cases:
  obtains (create) t where "new_title x = Some t"
  | (refuse) "new_title x = None" "step x s = s" "\<not> is_delete x" "\<forall>i. x \<noteq> PostToggle i"
  | (toggle) i where "x = PostToggle i"
  | (delete) i where "x = PostDelete i"
proof (cases x)
  case (PostTasks title)
  show ?thesis
  proof (cases "new_title x")
    case None
    with PostTasks have "step x s = s" by (intro step_no_title) simp_all
    with None show ?thesis by (rule refuse) (simp_all add: PostTasks)
  next
    case (Some t)
    then show ?thesis by (rule create)
  qed
next
  case (PostApiTasks data)
  show ?thesis
  proof (cases "new_title x")
    case None
    with PostApiTasks have "step x s = s" by (intro step_no_title) simp_all
    with None show ?thesis by (rule refuse) (simp_all add: PostApiTasks)
  next
    case (Some t)
    then show ?thesis by (rule create)
  qed
next
  case (PostToggle i)
  then show ?thesis by (rule toggle)
next
  case (PostDelete i)
  then show ?thesis by (rule delete)
qed

lemma task_counter_step:
  "task_counter (step x s) = (if creates x then task_counter s + 1 else task_counter s)"
proof (cases rule: step_cases [where x = x and s = s])
  case (create t)
  then show ?thesis by (simp add: step_new_title creates_def)
next
  case refuse
  then show ?thesis by (simp add: creates_def)
next
  case (toggle i)
  then show ?thesis
    by (simp add: step_toggle creates_def redis_set_def split: option.splits)
next
  case (delete i)
  then show ?thesis by (simp add: step_delete creates_def)
qed

lemma store_inv_step: "store_inv s \<Longrightarrow> store_inv (step x s)"
proof (cases rule: step_cases [where x = x and s = s])
  case (create t)
  assume "store_inv s"
  with create show ?thesis
    by (auto simp add: step_new_title store_inv_def redis_get_def)
next
  case refuse
  assume "store_inv s"
  with refuse show ?thesis by simp
next
  case (toggle i)
  assume "store_inv s"
  with toggle show ?thesis
    by (auto simp add: step_toggle store_inv_def redis_get_def redis_set_def split: option.splits)
next
  case (delete i)
  assume "store_inv s"
  with delete show ?thesis
    by (auto simp add: step_delete store_inv_def redis_get_def)
qed

lemma store_inv_run: "store_inv s \<Longrightarrow> store_inv (run xs s)"
  by (induction xs arbitrary: s) (simp_all add: store_inv_step)

text \<open>
  Claim C7. In every store reachable from the empty store by create, toggle and delete
  requests, each identifier in the identifier set has a stored record; and each of these
  operations keeps that property, from any store that has it.
\<close>

theorem store_inv_reachable:
  "store_inv (run xs empty_store) \<and> (store_inv s \<longrightarrow> store_inv (step x s))"
proof -
  have "store_inv empty_store" by (simp add: store_inv_def empty_store_def)
  then have "store_inv (run xs empty_store)" by (rule store_inv_run)
  then show ?thesis by (simp add: store_inv_step)
qed

theorem store_inv_reachable_witness:
  "task_ids (run [PostTasks (Some ''a''), PostTasks (Some ''b''), PostToggle ''2'', PostDelete ''1'']
      empty_store) = {''2''}
   \<and> store_inv (run [PostTasks (Some ''a''), PostTasks (Some ''b''), PostToggle ''2'', PostDelete ''1'']
      empty_store)
   \<and> store_inv (run [PostTasks (Some ''a'')] empty_store)
   \<and> store_inv (step (PostDelete ''2'') (run [PostTasks (Some ''a'')] empty_store))"
proof -
  let ?xs = "[PostTasks (Some ''a''), PostTasks (Some ''b''), PostToggle ''2'', PostDelete ''1'']"
  have ids: "task_ids (run ?xs empty_store) = {''2''}"
    by (simp add: step.simps handler_defs str_int_1 str_int_2) auto
  from store_inv_reachable [of ?xs "run [PostTasks (Some ''a'')] empty_store" "PostDelete ''2''"]
    store_inv_reachable [of "[PostTasks (Some ''a'')]" empty_store "PostDelete ''2''"] ids
  show ?thesis by blast
qed

section \<open>The store holds the spec's task table\<close>

lemma spec_step_new_title:
  "new_title x = Some t \<Longrightarrow>
     spec_step x (n, tbl) = (n + 1, tbl(str_int (n + 1) \<mapsto> (t, False)))"
  by (cases x) simp_all

lemma spec_step_no_title:
  "new_title x = None \<Longrightarrow> \<not> is_delete x \<Longrightarrow> (\<forall>i. x \<noteq> PostToggle i) \<Longrightarrow>
     spec_step x (n, tbl) = (n, tbl)"
  by (cases x) simp_all

lemma toggle_task_record:
  "dict_set (task_record (t, c)) ''completed'' (JBool (\<not> is_completed (task_record (t, c))))
     = task_record (t, \<not> c)"
  by (simp add: task_record_def dict_set_def is_completed_def dict_get_def)

lemma agrees_empty: "agrees empty_store (0, Map.empty)"
  by (simp add: agrees_def empty_store_def redis_get_def)

lemma agrees_step:
  assumes a: "agrees s (n, tbl)"
  shows "agrees (step x s) (spec_step x (n, tbl))"
proof (cases rule: step_cases [where x = x and s = s])
  case (create t)
  let ?id = "str_int (n + 1)"
  let ?s' = "s\<lparr>task_counter := task_counter s + 1,
               task_ids := insert (str_int (task_counter s + 1)) (task_ids s),
               records := (records s)(task_key (str_int (task_counter s + 1)) \<mapsto>
                             [(''title'', t), (''completed'', JBool False)])\<rparr>"
  from a have c: "task_counter s = n" by (simp add: agrees_def)
  from a have ids: "task_ids s = dom tbl" by (simp add: agrees_def)
  from a have r: "\<And>i. records s (task_key i) = map_option task_record (tbl i)"
    by (simp add: agrees_def redis_get_def)
  from a have b: "\<And>i. i \<in> dom tbl \<Longrightarrow> \<exists>k. k \<le> n \<and> i = str_int k"
    by (simp add: agrees_def)
  have 1: "task_counter ?s' = n + 1" by (simp add: c)
  have 2: "task_ids ?s' = dom (tbl(?id \<mapsto> (t, False)))" by (simp add: c ids)
  have 3: "\<forall>i. redis_get (task_key i) ?s' = map_option task_record ((tbl(?id \<mapsto> (t, False))) i)"
    by (simp add: redis_get_def c r task_record_def)
  have 4: "\<forall>i \<in> dom (tbl(?id \<mapsto> (t, False))). \<exists>k. k \<le> n + 1 \<and> i = str_int k"
  proof
    fix i assume "i \<in> dom (tbl(?id \<mapsto> (t, False)))"
    then consider "i = ?id" | "i \<in> dom tbl"
      by fastforce
    then show "\<exists>k. k \<le> n + 1 \<and> i = str_int k"
    proof cases
      case 1
      then show ?thesis by (intro exI [of _ "n + 1"]) simp
    next
      case 2
      from b [OF 2] obtain k where "k \<le> n" "i = str_int k" by blast
      then show ?thesis by (intro exI [of _ k]) simp
    qed
  qed
  from 1 2 3 4 show ?thesis
    unfolding step_new_title [OF create] spec_step_new_title [OF create] agrees_def
    by simp
next
  case refuse
  with a show ?thesis by (simp add: spec_step_no_title)
next
  case (toggle i)
  show ?thesis
  proof (cases "tbl i")
    case None
    with a have "redis_get (task_key i) s = None" by (simp add: agrees_def)
    with None a toggle show ?thesis by (simp add: step_toggle)
  next
    case (Some e)
    obtain t c where e: "e = (t, c)" by (cases e)
    from a Some e have g: "redis_get (task_key i) s = Some (task_record (t, c))"
      by (simp add: agrees_def)
    from Some have d: "insert i (dom tbl) = dom tbl" by auto
    from a show ?thesis
      by (simp add: toggle step_toggle g Some e toggle_task_record agrees_def d redis_set_def
          redis_get_def)
  qed
next
  case (delete i)
  from a show ?thesis
    by (simp add: delete step_delete agrees_def redis_get_def)
qed

lemma agrees_run: "agrees s st \<Longrightarrow> agrees (run xs s) (spec_run xs st)"
proof (induction xs arbitrary: s st)
  case Nil
  then show ?case by simp
next
  case (Cons x xs)
  obtain n tbl where st: "st = (n, tbl)" by (cases st)
  with Cons.prems have "agrees (step x s) (spec_step x st)" by (simp add: agrees_step)
  then show ?case by (simp add: Cons.IH)
qed

section \<open>Identifiers issued along a sequence\<close>

lemma fst_get_next_id [simp]: "fst (get_next_id s) = task_counter s + 1"
  by (simp add: get_next_id_def redis_incr_def)

lemma issued_ids_above: "n \<in> set (issued_ids xs s) \<Longrightarrow> task_counter s < n"
proof (induction xs arbitrary: s)
  case Nil
  then show ?case by simp
next
  case (Cons x xs)
  show ?case
  proof (cases "n \<in> set (issued_ids xs (step x s))")
    case True
    then have "task_counter (step x s) < n" by (rule Cons.IH)
    then show ?thesis by (simp add: task_counter_step split: if_splits)
  next
    case False
    with Cons.prems show ?thesis by (simp split: if_splits)
  qed
qed

lemma issued_ids_sorted: "sorted_wrt (<) (issued_ids xs s)"
proof (induction xs arbitrary: s)
  case Nil
  then show ?case by simp
next
  case (Cons x xs)
  have "\<forall>n \<in> set (issued_ids xs (step x s)). task_counter s + 1 < n" if "creates x"
    using that issued_ids_above [of _ xs "step x s"] by (simp add: task_counter_step)
  with Cons.IH [of "step x s"] show ?case by simp
qed

lemma issued_ids_length: "length (issued_ids xs s) = length (filter creates xs)"
  by (induction xs arbitrary: s) simp_all

lemma agrees_fresh:
  assumes "agrees s st"
  shows "str_int (task_counter s + 1) \<notin> task_ids s"
    and "redis_get (task_key (str_int (task_counter s + 1))) s = None"
proof -
  have d: "str_int (fst st + 1) \<notin> dom (snd st)"
  proof
    assume "str_int (fst st + 1) \<in> dom (snd st)"
    with assms obtain k where "k \<le> fst st" "str_int (fst st + 1) = str_int k"
      unfolding agrees_def by blast
    then show False by simp
  qed
  from assms have c: "task_counter s = fst st" by (simp add: agrees_def)
  from d assms show "str_int (task_counter s + 1) \<notin> task_ids s"
    by (simp add: agrees_def)
  from d have "snd st (str_int (fst st + 1)) = None" by blast
  with assms show "redis_get (task_key (str_int (task_counter s + 1))) s = None"
    by (simp add: agrees_def)
qed

text \<open>
  Claim C6. Along every sequence of requests, from any store, the identifiers that
  \<open>get_next_id\<close> issues to the creations with a non-empty title (one to each) are each
  above the counter's starting value and strictly increasing, so no two are equal, as
  numbers or as the strings used for keys. Starting from the empty store, the next
  identifier is moreover unused: it is not in the identifier set and has no record.
\<close>

theorem issued_ids_strictly_increasing:
  "length (issued_ids xs s) = length (filter creates xs)
   \<and> sorted_wrt (<) (task_counter s # issued_ids xs s)
   \<and> distinct (map str_int (issued_ids xs s))
   \<and> str_int (fst (get_next_id (run xs empty_store))) \<notin> task_ids (run xs empty_store)
   \<and> redis_get (task_key (str_int (fst (get_next_id (run xs empty_store))))) (run xs empty_store)
       = None"
proof -
  have 1: "sorted_wrt (<) (task_counter s # issued_ids xs s)"
    using issued_ids_sorted [of xs s] issued_ids_above [of _ xs s] by simp
  have "distinct (issued_ids xs s)"
    using issued_ids_sorted [of xs s] by (simp add: strict_sorted_iff)
  then have 2: "distinct (map str_int (issued_ids xs s))"
    by (simp add: distinct_map inj_on_def)
  have a: "agrees (run xs empty_store) (spec_run xs (0, Map.empty))"
    using agrees_empty by (rule agrees_run)
  from 1 2 agrees_fresh [OF a] issued_ids_length [of xs s] show ?thesis by simp
qed

theorem issued_ids_strictly_increasing_witness:
  "issued_ids [PostTasks (Some ''a''), PostTasks (Some []), PostApiTasks (JObj [(''title'', JStr ''b'')]),
       PostDelete ''1'', PostTasks (Some ''c'')] empty_store = [1, 2, 3]
   \<and> sorted_wrt (<) (task_counter empty_store #
        issued_ids [PostTasks (Some ''a''), PostTasks (Some []),
          PostApiTasks (JObj [(''title'', JStr ''b'')]), PostDelete ''1'', PostTasks (Some ''c'')]
          empty_store)"
proof -
  let ?xs = "[PostTasks (Some ''a''), PostTasks (Some []), PostApiTasks (JObj [(''title'', JStr ''b'')]),
       PostDelete ''1'', PostTasks (Some ''c'')]"
  have "issued_ids ?xs empty_store = [1, 2, 3]"
    by (simp add: creates_def dict_get_def task_counter_step empty_store_def)
  with issued_ids_strictly_increasing [of ?xs empty_store] show ?thesis by simp
qed

section \<open>Listing after creations and deletions\<close>

lemma deletes_ok_other:
  "\<not> is_delete x \<Longrightarrow>
     deletes_ok (x # xs) n gone = deletes_ok xs (if creates x then n + 1 else n) gone"
  by (cases x) simp_all

lemma spec_run_count:
  assumes "deletes_ok xs n gone" and "0 \<le> n" and "set gone \<subseteq> str_int ` {1..n}"
    and "dom tbl = str_int ` {1..n} - set gone"
  shows "card (dom (snd (spec_run xs (n, tbl)))) + length (filter is_delete xs)
           = card (dom tbl) + length (filter creates xs)"
  using assms
proof (induction xs arbitrary: n gone tbl)
  case Nil
  then show ?case by simp
next
  case (Cons x xs)
  have fin: "finite (dom tbl)" using Cons.prems(4) by simp
  show ?case
  proof (cases rule: step_cases [where x = x and s = empty_store])
    case (create t)
    let ?id = "str_int (n + 1)"
    let ?tbl = "tbl(?id \<mapsto> (t, False))"
    from create have nd: "\<not> is_delete x" by (cases x) simp_all
    from create have cr: "creates x" by (simp add: creates_def)
    have up: "{1..n + 1} = insert (n + 1) {1..n}" using Cons.prems(2) by auto
    have new: "?id \<notin> str_int ` {1..n}" by auto
    from nd cr Cons.prems(1) have 1: "deletes_ok xs (n + 1) gone"
      by (simp add: deletes_ok_other)
    have 2: "0 \<le> n + 1" using Cons.prems(2) by simp
    have 3: "set gone \<subseteq> str_int ` {1..n + 1}" using Cons.prems(3) up by auto
    have 4: "dom ?tbl = str_int ` {1..n + 1} - set gone"
      using Cons.prems(3,4) new up by auto
    have "?id \<notin> dom tbl" using Cons.prems(4) new by blast
    with fin have c: "card (dom ?tbl) = card (dom tbl) + 1" by simp
    have ih: "card (dom (snd (spec_run xs (n + 1, ?tbl)))) + length (filter is_delete xs)
                = card (dom ?tbl) + length (filter creates xs)"
      using 1 2 3 4 by (rule Cons.IH)
    have e: "spec_run (x # xs) (n, tbl) = spec_run xs (n + 1, ?tbl)"
      by (simp add: spec_step_new_title [OF create])
    have m: "length (filter is_delete (x # xs)) = length (filter is_delete xs)"
      using nd by simp
    have k: "length (filter creates (x # xs)) = length (filter creates xs) + 1"
      using cr by simp
    show ?thesis unfolding e m k using ih c by linarith
  next
    case refuse
    then have cr: "\<not> creates x" by (simp add: creates_def)
    with refuse Cons.prems(1) have 1: "deletes_ok xs n gone"
      by (simp add: deletes_ok_other)
    have ih: "card (dom (snd (spec_run xs (n, tbl)))) + length (filter is_delete xs)
                = card (dom tbl) + length (filter creates xs)"
      using 1 Cons.prems(2,3,4) by (rule Cons.IH)
    have e: "spec_run (x # xs) (n, tbl) = spec_run xs (n, tbl)"
      using refuse by (simp add: spec_step_no_title)
    have m: "length (filter is_delete (x # xs)) = length (filter is_delete xs)"
      using refuse by simp
    have k: "length (filter creates (x # xs)) = length (filter creates xs)"
      using cr by simp
    show ?thesis unfolding e m k using ih by linarith
  next
    case (toggle i)
    from toggle Cons.prems(1) have 1: "deletes_ok xs n gone"
      by (simp add: creates_def)
    have "\<exists>tbl'. spec_step x (n, tbl) = (n, tbl') \<and> dom tbl' = dom tbl"
    proof (cases "tbl i")
      case None
      with toggle show ?thesis by simp
    next
      case (Some e)
      then have "insert i (dom tbl) = dom tbl" by auto
      with Some toggle show ?thesis by (cases e) simp
    qed
    then obtain tbl' where s: "spec_step x (n, tbl) = (n, tbl')" and d: "dom tbl' = dom tbl"
      by blast
    from Cons.prems(4) d have 4: "dom tbl' = str_int ` {1..n} - set gone" by simp
    have ih: "card (dom (snd (spec_run xs (n, tbl')))) + length (filter is_delete xs)
                = card (dom tbl') + length (filter creates xs)"
      using 1 Cons.prems(2,3) 4 by (rule Cons.IH)
    have e: "spec_run (x # xs) (n, tbl) = spec_run xs (n, tbl')"
      using s by simp
    have m: "length (filter is_delete (x # xs)) = length (filter is_delete xs)"
      using toggle by simp
    have k: "length (filter creates (x # xs)) = length (filter creates xs)"
      using toggle by (simp add: creates_def)
    show ?thesis unfolding e m k using ih d by simp
  next
    case (delete i)
    let ?tbl = "tbl(i := None)"
    from delete Cons.prems(1) have i: "i \<in> str_int ` {1..n}" "i \<notin> set gone"
      and 1: "deletes_ok xs n (i # gone)"
      by simp_all
    have 3: "set (i # gone) \<subseteq> str_int ` {1..n}" using i Cons.prems(3) by simp
    have 4: "dom ?tbl = str_int ` {1..n} - set (i # gone)" using Cons.prems(4) by auto
    from i Cons.prems(4) have "i \<in> dom tbl" by simp
    with fin have "Suc (card (dom tbl - {i})) = card (dom tbl)" by (rule card_Suc_Diff1)
    then have c: "card (dom ?tbl) + 1 = card (dom tbl)" by simp
    have ih: "card (dom (snd (spec_run xs (n, ?tbl)))) + length (filter is_delete xs)
                = card (dom ?tbl) + length (filter creates xs)"
      using 1 Cons.prems(2) 3 4 by (rule Cons.IH)
    have e: "spec_run (x # xs) (n, tbl) = spec_run xs (n, ?tbl)"
      using delete by simp
    have m: "length (filter is_delete (x # xs)) = length (filter is_delete xs) + 1"
      using delete by simp
    have k: "length (filter creates (x # xs)) = length (filter creates xs)"
      using delete by (simp add: creates_def)
    show ?thesis unfolding e m k using ih c by linarith
  qed
qed

lemma listed_record:
  "dict_set (task_record (t, c)) ''id'' (JStr i)
     = [(''title'', t), (''completed'', JBool c), (''id'', JStr i)]"
  by (simp add: task_record_def dict_set_def)

lemma collect_tasks_agrees:
  assumes "agrees s (n, tbl)"
  shows "set ms \<subseteq> dom tbl \<Longrightarrow>
     collect_tasks ms s = map (\<lambda>i. dict_set (task_record (the (tbl i))) ''id'' (JStr i)) ms"
proof (induction ms)
  case Nil
  then show ?case by simp
next
  case (Cons i ms)
  then obtain e where "tbl i = Some e" by auto
  with assms have "redis_get (task_key i) s = Some (task_record e)" "the (tbl i) = e"
    by (simp_all add: agrees_def)
  with Cons show ?case by simp
qed

text \<open>
  Claim C5. Start from the empty store and handle any sequence of requests in which every
  deletion names a previously created identifier that has not been deleted before; toggles,
  and creations refused for want of a title, may occur anywhere. With \<open>N\<close> the number of
  creations that went through and \<open>M\<close> the number of deletions, listing the tasks returns
  exactly \<open>N - M\<close> records, and the records returned are those of the spec's task table:
  each has the title it was created with and the completion state left by its creation or
  its last toggle, and each entry of the table is returned.
\<close>

theorem get_tasks_after_creations_and_deletions:
  assumes "deletes_ok xs 0 []" and "smembers (run xs empty_store) ms"
  shows "length (filter is_delete xs) \<le> length (filter creates xs)
       \<and> length (get_tasks ms (run xs empty_store))
           = length (filter creates xs) - length (filter is_delete xs)
       \<and> set (get_tasks ms (run xs empty_store))
           = {[(''title'', t), (''completed'', JBool c), (''id'', JStr i)] | i t c.
                spec_tasks xs i = Some (t, c)}"
proof -
  let ?s = "run xs empty_store"
  obtain n tbl where st: "spec_run xs (0, Map.empty) = (n, tbl)"
    by (cases "spec_run xs (0, Map.empty)")
  have "agrees ?s (spec_run xs (0, Map.empty))"
    using agrees_empty by (rule agrees_run)
  with st have a: "agrees ?s (n, tbl)" by simp
  then have ids: "task_ids ?s = dom tbl" by (simp add: agrees_def)
  with assms(2) have ms: "set ms = dom tbl" "distinct ms" by (simp_all add: smembers_def)
  then have c: "collect_tasks ms ?s
                 = map (\<lambda>i. dict_set (task_record (the (tbl i))) ''id'' (JStr i)) ms"
    using collect_tasks_agrees [OF a, of ms] by simp
  have "card (dom (snd (spec_run xs (0, Map.empty)))) + length (filter is_delete xs)
          = card (dom (Map.empty :: spec_table)) + length (filter creates xs)"
    using assms(1) by (rule spec_run_count) simp_all
  with st have count: "card (dom tbl) + length (filter is_delete xs) = length (filter creates xs)"
    by simp
  have len: "length (get_tasks ms ?s) = card (dom tbl)"
    using ms distinct_card [of ms] by (simp add: get_tasks_def c)
  have "set (get_tasks ms ?s)
          = (\<lambda>i. dict_set (task_record (the (tbl i))) ''id'' (JStr i)) ` dom tbl"
    using ms by (simp add: get_tasks_def c)
  also have "\<dots> = {[(''title'', t), (''completed'', JBool c), (''id'', JStr i)] | i t c.
                     tbl i = Some (t, c)}"
    by (auto simp add: listed_record image_iff dom_def) (metis listed_record option.sel)
  finally have rows: "set (get_tasks ms ?s)
          = {[(''title'', t), (''completed'', JBool c), (''id'', JStr i)] | i t c.
               spec_tasks xs i = Some (t, c)}"
    by (simp add: spec_tasks_def st)
  from count len rows show ?thesis by simp
qed

theorem get_tasks_after_creations_and_deletions_witness:
  "deletes_ok [PostTasks (Some ''a''), PostApiTasks (JObj [(''title'', JStr ''b'')]),
      PostToggle ''2'', PostDelete ''1''] 0 []
   \<and> smembers (run [PostTasks (Some ''a''), PostApiTasks (JObj [(''title'', JStr ''b'')]),
      PostToggle ''2'', PostDelete ''1''] empty_store) [''2'']
   \<and> length (get_tasks [''2''] (run [PostTasks (Some ''a''),
      PostApiTasks (JObj [(''title'', JStr ''b'')]), PostToggle ''2'', PostDelete ''1'']
      empty_store)) = 1"
proof -
  let ?xs = "[PostTasks (Some ''a''), PostApiTasks (JObj [(''title'', JStr ''b'')]),
      PostToggle ''2'', PostDelete ''1'']"
  have d: "deletes_ok ?xs 0 []" by code_simp
  have m: "smembers (run ?xs empty_store) [''2'']"
    unfolding smembers_def by code_simp
  have k: "length (filter creates ?xs) - length (filter is_delete ?xs) = 1" by code_simp
  from get_tasks_after_creations_and_deletions [OF d m] d m k show ?thesis by simp
qed

section \<open>Order of the listing\<close>

lemma get_tasks_sorted_as_strings: "sorted (map sort_id (get_tasks ms s))"
  by (simp add: get_tasks_def)

text \<open>
  Claim C1 asks for the listing in ascending numeric order of the issued identifiers.
  After ten creations on the empty store the identifiers issued are 1 to 10, and
  \<open>get_tasks\<close>, sorting the identifier strings, returns task 10 second, before tasks 2 to 9.
\<close>

theorem get_tasks_ten_tasks:
  "issued_ids (map (\<lambda>k. PostTasks (Some (''task '' @ str_int k))) [1..10]) empty_store
     = [1, 2, 3, 4, 5, 6, 7, 8, 9, 10]
   \<and> smembers (run (map (\<lambda>k. PostTasks (Some (''task '' @ str_int k))) [1..10]) empty_store)
        (map str_int [1..10])
   \<and> map sort_id
        (get_tasks (map str_int [1..10])
           (run (map (\<lambda>k. PostTasks (Some (''task '' @ str_int k))) [1..10]) empty_store))
     = map str_int [1, 10, 2, 3, 4, 5, 6, 7, 8, 9]"
  unfolding smembers_def by code_simp

end
